theory Spec2Isabelle
  imports Main "HOL-Library.Word"
begin

section \<open>The in-memory transaction chain (\<^verbatim>\<open>kittycash/wallet/src/iko/chain.go\<close>)\<close>

text \<open>
  \<^verbatim>\<open>MemoryChain\<close> keeps the admitted transactions in a Go slice \<^verbatim>\<open>txs\<close> and a
  map \<^verbatim>\<open>byHash\<close> from transaction hash to a pointer \<^emph>\<open>into the slice's backing
  array\<close> (\<^verbatim>\<open>&c.txs[len(c.txs)-1]\<close>). \<^verbatim>\<open>append\<close> may move the slice to a new backing
  array, after which older pointers still refer to the old one. The model therefore
  keeps the backing arrays in an explicit memory and the pointers as (array, index)
  pairs.

  The type \<^verbatim>\<open>Transaction\<close>, its zero value \<^verbatim>\<open>Transaction{}\<close> and its method
  \<^verbatim>\<open>Hash()\<close> are declared outside \<^verbatim>\<open>chain.go\<close>: transactions are a type variable
  \<open>'tx\<close>, hashes a type variable \<open>'h\<close>, and the functions below take \<open>Hash\<close> and
  \<open>zeroTx\<close> as parameters; what the specification says of the hash is the predicate
  \<open>content_hash\<close> below. The capacity the Go runtime picks when \<^verbatim>\<open>append\<close> has to
  reallocate is the parameter \<open>grow\<close>.

  A \<^verbatim>\<open>TxChecker\<close> is handed the address of \<^verbatim>\<open>AddTx\<close>'s own copy of the transaction
  and can write to it before it returns: a check is a function from the transaction to
  its error (\<open>None\<close> is Go's \<^verbatim>\<open>nil\<close>) together with the copy it leaves behind. A check
  that only reads returns the transaction as it got it.

  The reader/writer lock and the notification channel \<^verbatim>\<open>txChan\<close> (sized by the
  argument of \<^verbatim>\<open>NewMemoryChain\<close> and filled by a goroutine that \<^verbatim>\<open>AddTx\<close> spawns and
  does not wait for) concern concurrent executions only; the model is the sequential
  behaviour of the methods.
\<close>

subsection \<open>Memory, slices and pointers\<close>

type_synonym addr = nat

text \<open>A slice header: the backing array, the length and the capacity.\<close>

record slice =
  array :: addr
  len :: nat
  cap :: nat

text \<open>The address of one element of a backing array.\<close>

type_synonym ptr = "addr \<times> nat"

text \<open>The nil slice, the value of an unset slice field.\<close>

definition nil_slice :: slice where
  "nil_slice = \<lparr>array = 0, len = 0, cap = 0\<rparr>"

text \<open>\<^verbatim>\<open>s[i]\<close>: Go checks the index against the length and panics outside it
  (\<open>None\<close>).\<close>

definition index :: "'tx list list \<Rightarrow> slice \<Rightarrow> nat \<Rightarrow> 'tx option" where
  "index m s i = (if i < len s then Some (m ! array s ! i) else None)"

text \<open>\<^verbatim>\<open>*p\<close>: \<open>None\<close> for an address outside the allocated memory.\<close>

definition deref :: "'tx list list \<Rightarrow> ptr \<Rightarrow> 'tx option" where
  "deref m p = (case p of (a, i) \<Rightarrow>
     if a < length m \<and> i < length (m ! a) then Some (m ! a ! i) else None)"

text \<open>
  \<^verbatim>\<open>append(s, tx)\<close>: with spare capacity the element is written in place, behind the
  last one; otherwise a new array is allocated, large enough for the old elements and
  the new one, the old elements are copied and the rest is zeroed. The new array gets
  the next free address.
\<close>

definition append_slice ::
  "(nat \<Rightarrow> nat) \<Rightarrow> 'tx \<Rightarrow> 'tx list list \<Rightarrow> slice \<Rightarrow> 'tx \<Rightarrow> 'tx list list \<times> slice" where
  "append_slice grow zeroTx m s tx =
     (if len s < cap s
      then (m[array s := (m ! array s)[len s := tx]], s\<lparr>len := len s + 1\<rparr>)
      else
        let newcap = max (len s + 1) (grow (cap s));
            arr = take (len s) (m ! array s) @ [tx] @ replicate (newcap - (len s + 1)) zeroTx
        in (m @ [arr], \<lparr>array = length m, len = len s + 1, cap = newcap\<rparr>))"

subsection \<open>The chain\<close>

record ('tx, 'h) MemoryChain =
  arrays :: "'tx list list"
  txs :: slice
  byHash :: "'h \<Rightarrow> ptr option"

text \<open>
  The errors of the methods, each with the value its message prints; \<open>RuntimePanic\<close>
  stands for a failed index check or pointer access.
\<close>

datatype 'h error =
    NoTransactions
  | TxOfHashNotExist 'h
  | BlockOfSeqNotExist "64 word"
  | InvalidPageSize "64 word"
  | InvalidStartSeq "64 word"
  | RuntimePanic

definition NewMemoryChain :: "('tx, 'h) MemoryChain" where
  "NewMemoryChain = \<lparr>arrays = [], txs = nil_slice, byHash = Map.empty\<rparr>"

definition Head :: "('tx, 'h) MemoryChain \<Rightarrow> 'h error + 'tx" where
  "Head c =
     (if len (txs c) = 0 then Inl NoTransactions
      else case index (arrays c) (txs c) (len (txs c) - 1) of
             Some t \<Rightarrow> Inr t
           | None \<Rightarrow> Inl RuntimePanic)"

text \<open>
  \<^verbatim>\<open>len(c.txs)\<close> is a Go \<^verbatim>\<open>int\<close>, never negative; \<^verbatim>\<open>uint64(len(c.txs))\<close> is its value as a
  64-bit word, on which \<open>-\<close> and \<open>+\<close> wrap around and \<open><\<close> and \<open>\<le>\<close> compare unsigned.
\<close>

definition HeadSeq :: "('tx, 'h) MemoryChain \<Rightarrow> 64 word" where
  "HeadSeq c = of_nat (len (txs c)) - 1"

definition Len :: "('tx, 'h) MemoryChain \<Rightarrow> 64 word" where
  "Len c = of_nat (len (txs c))"

text \<open>
  \<^verbatim>\<open>AddTx\<close> calls \<^verbatim>\<open>check(&tx)\<close> on its own copy of the argument and, when the check
  returns no error, appends and indexes that copy as the check left it (\<open>tx'\<close>). It
  returns the error of the check together with the chain afterwards.
\<close>

definition AddTx ::
  "('tx \<Rightarrow> 'h) \<Rightarrow> (nat \<Rightarrow> nat) \<Rightarrow> 'tx \<Rightarrow> 'tx \<Rightarrow> ('tx \<Rightarrow> 'e option \<times> 'tx) \<Rightarrow>
   ('tx, 'h) MemoryChain \<Rightarrow> 'e option \<times> ('tx, 'h) MemoryChain" where
  "AddTx Hash grow zeroTx tx check c =
     (case check tx of
        (Some e, tx') \<Rightarrow> (Some e, c)
      | (None, tx') \<Rightarrow>
          let (m', s') = append_slice grow zeroTx (arrays c) (txs c) tx'
          in (None, c\<lparr>arrays := m', txs := s',
                       byHash := (byHash c)(Hash tx' \<mapsto> (array s', len s' - 1))\<rparr>))"

definition GetTxOfHash :: "('tx, 'h) MemoryChain \<Rightarrow> 'h \<Rightarrow> 'h error + 'tx" where
  "GetTxOfHash c hash =
     (case byHash c hash of
        None \<Rightarrow> Inl (TxOfHashNotExist hash)
      | Some p \<Rightarrow> (case deref (arrays c) p of
                     Some t \<Rightarrow> Inr t
                   | None \<Rightarrow> Inl RuntimePanic))"

definition GetTxOfSeq :: "('tx, 'h) MemoryChain \<Rightarrow> 64 word \<Rightarrow> 'h error + 'tx" where
  "GetTxOfSeq c seq =
     (if seq \<ge> of_nat (len (txs c)) then Inl (BlockOfSeqNotExist seq)
      else case index (arrays c) (txs c) (unat seq) of
             Some t \<Rightarrow> Inr t
           | None \<Rightarrow> Inl RuntimePanic)"

text \<open>
  The loop of \<^verbatim>\<open>GetTxsOfSeqRange\<close>, with the length \<open>n\<close> read before it and the
  counter \<open>currentSeq\<close>; every variable is a \<^verbatim>\<open>uint64\<close>.
\<close>

function range_loop ::
  "('tx, 'h) MemoryChain \<Rightarrow> 64 word \<Rightarrow> 64 word \<Rightarrow> 64 word \<Rightarrow> 64 word \<Rightarrow> 'tx list \<Rightarrow>
   'h error + 'tx list" where
  "range_loop c n startSeq pageSize currentSeq result =
     (if currentSeq < n \<and> currentSeq - startSeq < pageSize
      then (case index (arrays c) (txs c) (unat currentSeq) of
              None \<Rightarrow> Inl RuntimePanic
            | Some t \<Rightarrow> range_loop c n startSeq pageSize (currentSeq + 1) (result @ [t]))
      else Inr result)"
  by pat_completeness auto
termination
proof (relation "measure (\<lambda>(c, n, startSeq, pageSize, currentSeq, result). unat n - unat currentSeq)")
  show "wf (measure (\<lambda>(c :: ('tx, 'h) MemoryChain, n :: 64 word, startSeq :: 64 word,
      pageSize :: 64 word, currentSeq :: 64 word, result :: 'tx list). unat n - unat currentSeq))"
    by simp
next
  fix c :: "('tx, 'h) MemoryChain" and n startSeq pageSize currentSeq :: "64 word"
    and result :: "'tx list" and t :: 'tx
  assume "currentSeq < n \<and> currentSeq - startSeq < pageSize"
  then have "currentSeq < n" by simp
  then have "unat n - unat (currentSeq + 1) < unat n - unat currentSeq"
    by unat_arith
  then show "((c, n, startSeq, pageSize, currentSeq + 1, result @ [t]),
      (c, n, startSeq, pageSize, currentSeq, result))
    \<in> measure (\<lambda>(c, n, startSeq, pageSize, currentSeq, result). unat n - unat currentSeq)"
    by simp
qed

declare range_loop.simps [simp del]

definition GetTxsOfSeqRange ::
  "('tx, 'h) MemoryChain \<Rightarrow> 64 word \<Rightarrow> 64 word \<Rightarrow> 'h error + 'tx list" where
  "GetTxsOfSeqRange c startSeq pageSize =
     (if pageSize = 0 then Inl (InvalidPageSize pageSize)
      else
        let n = Len c in
        if startSeq \<ge> n then Inl (InvalidStartSeq startSeq)
        else range_loop c n startSeq pageSize startSeq [])"

subsection \<open>Reachable chains and their invariant\<close>

text \<open>
  Modelled from the spec: \<^verbatim>\<open>Transaction.Hash\<close>, the method that \<^verbatim>\<open>AddTx\<close> calls and that is
  declared outside \<^verbatim>\<open>chain.go\<close>. Section 3 of the specification calls the content hash of
  a transaction its identity, computed from its fields, and the unique key of the
  hash-indexed lookup: different transactions have different hashes.
\<close>

definition content_hash :: "('tx \<Rightarrow> 'h) \<Rightarrow> bool" where
  "content_hash Hash \<longleftrightarrow> inj Hash"

text \<open>The transactions held by the slice \<^verbatim>\<open>c.txs\<close>, in sequence order.\<close>

definition admitted :: "('tx, 'h) MemoryChain \<Rightarrow> 'tx list" where
  "admitted c = take (len (txs c)) (arrays c ! array (txs c))"

text \<open>The last transaction of a log that has the hash \<open>h\<close>.\<close>

definition latest :: "('tx \<Rightarrow> 'h) \<Rightarrow> 'tx list \<Rightarrow> 'h \<Rightarrow> 'tx option" where
  "latest Hash log h = find (\<lambda>t. Hash t = h) (rev log)"

text \<open>
  A slice of the memory \<open>m\<close>: its length is within its capacity, and a slice with
  capacity refers to an allocated array of that size.
\<close>

definition slice_ok :: "'tx list list \<Rightarrow> slice \<Rightarrow> bool" where
  "slice_ok m s \<longleftrightarrow>
     len s \<le> cap s \<and>
     (0 < cap s \<longrightarrow> array s < length m \<and> length (m ! array s) = cap s)"

text \<open>
  A pointer into allocated memory. A pointer into the array of the slice \<open>s\<close> refers to
  one of its elements, so that no later \<^verbatim>\<open>append\<close> writes to its target.
\<close>

definition ptr_ok :: "'tx list list \<Rightarrow> slice \<Rightarrow> ptr \<Rightarrow> bool" where
  "ptr_ok m s p \<longleftrightarrow>
     fst p < length m \<and> snd p < length (m ! fst p) \<and> (fst p = array s \<longrightarrow> snd p < len s)"

text \<open>
  The invariant of the chain: the slice is well formed, and the hash index maps exactly
  the hashes of the admitted transactions, each to a valid pointer whose target holds
  the last admitted transaction with that hash.
\<close>

definition chain_inv :: "('tx \<Rightarrow> 'h) \<Rightarrow> ('tx, 'h) MemoryChain \<Rightarrow> bool" where
  "chain_inv Hash c \<longleftrightarrow>
     slice_ok (arrays c) (txs c) \<and>
     (\<forall>h. case byHash c h of
            None \<Rightarrow> latest Hash (admitted c) h = None
          | Some p \<Rightarrow> ptr_ok (arrays c) (txs c) p \<and>
              latest Hash (admitted c) h = Some (arrays c ! fst p ! snd p))"

text \<open>
  The chains that calls of \<^verbatim>\<open>AddTx\<close> build from the new chain. A rejected call changes
  nothing, and an accepted call appends the copy that the check left, as the call for
  that copy with a check that only reads does: the rule takes the check that accepts
  everything and writes nothing (\<open>reachable_step\<close> below gives the rule for an arbitrary
  check).
\<close>

inductive reachable ::
  "('tx \<Rightarrow> 'h) \<Rightarrow> (nat \<Rightarrow> nat) \<Rightarrow> 'tx \<Rightarrow> ('tx, 'h) MemoryChain \<Rightarrow> bool"
  for Hash :: "'tx \<Rightarrow> 'h" and grow :: "nat \<Rightarrow> nat" and zeroTx :: 'tx where
  reachable_New: "reachable Hash grow zeroTx NewMemoryChain"
| reachable_AddTx: "reachable Hash grow zeroTx c \<Longrightarrow>
     reachable Hash grow zeroTx
       (snd (AddTx Hash grow zeroTx tx (\<lambda>t. (None :: unit option, t)) c))"

subsection \<open>Example data\<close>

text \<open>
  A small instance for the concrete evaluations below: transactions are natural numbers,
  the hash of \<open>t\<close> is \<open>2 * t + 1\<close>, a reallocation doubles the capacity, \<open>accept\<close> and
  \<open>nonzero\<close> are checks that only read, \<open>overwrite\<close> is a check that writes \<open>99\<close> to the
  transaction it is given and returns no error, and \<open>chain3\<close> is the chain after
  admitting \<open>3\<close>, \<open>4\<close> and \<open>5\<close>.
\<close>

definition demo_hash :: "nat \<Rightarrow> nat" where
  "demo_hash t = 2 * t + 1"

definition double_cap :: "nat \<Rightarrow> nat" where
  "double_cap n = 2 * n"

definition accept :: "nat \<Rightarrow> string option \<times> nat" where
  "accept t = (None, t)"

definition nonzero :: "nat \<Rightarrow> string option \<times> nat" where
  "nonzero t = (if t = 0 then Some ''zero'' else None, t)"

definition overwrite :: "nat \<Rightarrow> string option \<times> nat" where
  "overwrite t = (None, 99)"

definition chain1 :: "(nat, nat) MemoryChain" where
  "chain1 = snd (AddTx demo_hash double_cap 0 3 accept NewMemoryChain)"

definition chain2 :: "(nat, nat) MemoryChain" where
  "chain2 = snd (AddTx demo_hash double_cap 0 4 accept chain1)"

definition chain3 :: "(nat, nat) MemoryChain" where
  "chain3 = snd (AddTx demo_hash double_cap 0 5 accept chain2)"

definition chain3_overwritten :: "(nat, nat) MemoryChain" where
  "chain3_overwritten = snd (AddTx demo_hash double_cap 0 3 overwrite chain3)"

section \<open>Auxiliary facts\<close>

subsection \<open>The queries by sequence\<close>

lemma unat_less_of_nat: "(s :: 64 word) < of_nat l \<Longrightarrow> unat s < l"
  by (metis unat_of_nat word_less_nat_alt mod_less_eq_dividend order_less_le_trans)

lemma range_loop_eq:
  "startSeq \<le> currentSeq \<Longrightarrow> unat n \<le> len (txs c) \<Longrightarrow>
   range_loop c n startSeq pageSize currentSeq result =
     Inr (result @ map (\<lambda>k. arrays c ! array (txs c) ! k)
            [unat currentSeq ..< min (unat n) (unat startSeq + unat pageSize)])"
proof (induction c n startSeq pageSize currentSeq result rule: range_loop.induct)
  case (1 c n startSeq pageSize currentSeq result)
  let ?e = "min (unat n) (unat startSeq + unat pageSize)"
  from "1.prems"(1) have sub: "unat (currentSeq - startSeq) = unat currentSeq - unat startSeq"
    by (rule unat_sub)
  from "1.prems"(1) have le: "unat startSeq \<le> unat currentSeq"
    by (simp add: word_le_nat_alt)
  show ?case
  proof (cases "currentSeq < n \<and> currentSeq - startSeq < pageSize")
    case True
    then have lt: "currentSeq < n" and pg: "currentSeq - startSeq < pageSize" by simp_all
    from lt have un: "unat currentSeq < unat n" by (simp add: word_less_nat_alt)
    from pg sub have "unat currentSeq - unat startSeq < unat pageSize"
      by (simp add: word_less_nat_alt)
    with un le have cur: "unat currentSeq < ?e" by simp
    from un "1.prems"(2) have idx: "index (arrays c) (txs c) (unat currentSeq)
        = Some (arrays c ! array (txs c) ! unat currentSeq)"
      by (simp add: index_def)
    from lt have suc: "unat (currentSeq + 1) = Suc (unat currentSeq)" by unat_arith
    from lt "1.prems"(1) have le': "startSeq \<le> currentSeq + 1" by unat_arith
    have "range_loop c n startSeq pageSize currentSeq result
        = range_loop c n startSeq pageSize (currentSeq + 1)
            (result @ [arrays c ! array (txs c) ! unat currentSeq])"
      using True idx by (subst range_loop.simps) simp
    also have "\<dots> = Inr ((result @ [arrays c ! array (txs c) ! unat currentSeq]) @
        map (\<lambda>k. arrays c ! array (txs c) ! k) [unat (currentSeq + 1) ..< ?e])"
      using "1.IH" [OF True idx le' "1.prems"(2)] .
    also have "\<dots> = Inr (result @ map (\<lambda>k. arrays c ! array (txs c) ! k) [unat currentSeq ..< ?e])"
      using cur by (simp add: suc upt_conv_Cons)
    finally show ?thesis .
  next
    case False
    then have "\<not> unat currentSeq < unat n \<or> \<not> unat currentSeq - unat startSeq < unat pageSize"
      using sub by (simp add: word_less_nat_alt)
    with le have "?e \<le> unat currentSeq" by (auto simp: min_def)
    then have nil: "[unat currentSeq ..< ?e] = []" by simp
    have "range_loop c n startSeq pageSize currentSeq result = Inr result"
      by (subst range_loop.simps) (simp only: False if_False)
    then show ?thesis by (simp only: nil list.map append_Nil2)
  qed
qed

lemma GetTxsOfSeqRange_eq:
  "GetTxsOfSeqRange c s p =
     (if p = 0 then Inl (InvalidPageSize p)
      else if Len c \<le> s then Inl (InvalidStartSeq s)
      else Inr (map (\<lambda>k. arrays c ! array (txs c) ! k)
             [unat s ..< min (unat (Len c)) (unat s + unat p)]))"
proof -
  have "unat (Len c) \<le> len (txs c)"
    by (simp add: Len_def unat_of_nat)
  then show ?thesis
    by (simp add: GetTxsOfSeqRange_def Let_def range_loop_eq)
qed

lemma GetTxOfSeq_eq:
  "GetTxOfSeq c seq =
     (if Len c \<le> seq then Inl (BlockOfSeqNotExist seq)
      else Inr (arrays c ! array (txs c) ! unat seq))"
proof (cases "Len c \<le> seq")
  case True
  then show ?thesis by (simp add: GetTxOfSeq_def Len_def)
next
  case False
  then have "seq < of_nat (len (txs c))" by (simp add: Len_def)
  then have "unat seq < len (txs c)" by (rule unat_less_of_nat)
  with False show ?thesis by (simp add: GetTxOfSeq_def Len_def index_def)
qed


subsection \<open>What \<^verbatim>\<open>append\<close> does to a well-formed slice\<close>

lemma latest_snoc: "latest Hash (log @ [tx]) h = (if Hash tx = h then Some tx else latest Hash log h)"
  by (simp add: latest_def)

lemma latest_Nil: "latest Hash [] h = None"
  by (simp add: latest_def)

lemma append_slice_len:
  "append_slice grow zeroTx m s tx = (m', s') \<Longrightarrow> len s' = len s + 1"
  by (auto simp: append_slice_def Let_def split: if_splits)

lemma append_slice_ok:
  assumes "slice_ok m s" and "append_slice grow zeroTx m s tx = (m', s')"
  shows "slice_ok m' s'" and "array s' < length m'" and "len s < length (m' ! array s')"
  using assms
  by (auto simp: append_slice_def slice_ok_def Let_def split: if_splits)

lemma append_slice_log:
  assumes "slice_ok m s" and "append_slice grow zeroTx m s tx = (m', s')"
  shows "take (len s') (m' ! array s') = take (len s) (m ! array s) @ [tx]"
proof (cases "len s < cap s")
  case True
  with assms have ok: "array s < length m" "len s < length (m ! array s)"
    by (auto simp: slice_ok_def)
  from True assms(2) have "m' = m[array s := (m ! array s)[len s := tx]]"
    and "s' = s\<lparr>len := len s + 1\<rparr>"
    by (auto simp: append_slice_def)
  with ok show ?thesis
    by (simp add: take_Suc_conv_app_nth)
next
  case False
  with assms(2) have m': "m' = m @ [take (len s) (m ! array s) @ [tx] @
        replicate (max (len s + 1) (grow (cap s)) - (len s + 1)) zeroTx]"
    and s': "array s' = length m" "len s' = len s + 1"
    by (auto simp: append_slice_def Let_def)
  from False assms(1) have "len s \<le> length (m ! array s) \<or> len s = 0"
    by (auto simp: slice_ok_def)
  then have "length (take (len s) (m ! array s)) = len s" by auto
  then show ?thesis by (simp add: m' s')
qed

lemma append_slice_frame:
  assumes "slice_ok m s" and "append_slice grow zeroTx m s tx = (m', s')" and "ptr_ok m s p"
  shows "ptr_ok m' s' p" and "m' ! fst p ! snd p = m ! fst p ! snd p"
  using assms
  by (auto simp: append_slice_def slice_ok_def ptr_ok_def Let_def nth_append nth_list_update
      split: if_splits)

subsection \<open>\<^verbatim>\<open>AddTx\<close> keeps the invariant\<close>

lemma AddTx_rejected:
  "fst (check tx) = Some e \<Longrightarrow> AddTx Hash grow zeroTx tx check c = (Some e, c)"
  by (cases "check tx") (simp add: AddTx_def)

lemma AddTx_accepted:
  assumes "check tx = (None, tx')" and "append_slice grow zeroTx (arrays c) (txs c) tx' = (m', s')"
  shows "AddTx Hash grow zeroTx tx check c =
     (None, \<lparr>arrays = m', txs = s', byHash = (byHash c)(Hash tx' \<mapsto> (array s', len (txs c)))\<rparr>)"
  using assms append_slice_len [OF assms(2)] by (simp add: AddTx_def)

lemma AddTx_state_check:
  "check tx = (None, tx') \<Longrightarrow>
   snd (AddTx Hash grow zeroTx tx check c) =
   snd (AddTx Hash grow zeroTx tx' (\<lambda>t. (None :: unit option, t)) c)"
  by (simp add: AddTx_def split: prod.splits)

lemma chain_inv_New: "chain_inv Hash NewMemoryChain"
  by (simp add: chain_inv_def NewMemoryChain_def slice_ok_def nil_slice_def admitted_def latest_Nil)

lemma chain_inv_entry:
  assumes "chain_inv Hash c"
  shows "case byHash c h of
           None \<Rightarrow> latest Hash (admitted c) h = None
         | Some p \<Rightarrow> ptr_ok (arrays c) (txs c) p \<and>
             latest Hash (admitted c) h = Some (arrays c ! fst p ! snd p)"
proof -
  from assms [unfolded chain_inv_def] have "\<forall>h. case byHash c h of
           None \<Rightarrow> latest Hash (admitted c) h = None
         | Some p \<Rightarrow> ptr_ok (arrays c) (txs c) p \<and>
             latest Hash (admitted c) h = Some (arrays c ! fst p ! snd p)"
    by (rule conjunct2)
  then show ?thesis by (rule spec)
qed

lemma chain_inv_None:
  "chain_inv Hash c \<Longrightarrow> byHash c h = None \<Longrightarrow> latest Hash (admitted c) h = None"
  using chain_inv_entry [of Hash c h] by simp

lemma chain_inv_Some:
  "chain_inv Hash c \<Longrightarrow> byHash c h = Some p \<Longrightarrow>
   ptr_ok (arrays c) (txs c) p \<and> latest Hash (admitted c) h = Some (arrays c ! fst p ! snd p)"
  using chain_inv_entry [of Hash c h] by simp

lemma admitted_AddTx:
  assumes "slice_ok (arrays c) (txs c)" and "check tx = (None, tx')"
  shows "admitted (snd (AddTx Hash grow zeroTx tx check c)) = admitted c @ [tx']"
proof -
  obtain m' s' where ap: "append_slice grow zeroTx (arrays c) (txs c) tx' = (m', s')"
    by (cases "append_slice grow zeroTx (arrays c) (txs c) tx'")
  show ?thesis
    using append_slice_log [OF assms(1) ap] by (simp add: AddTx_accepted [where check = check and tx = tx and tx' = tx', OF assms(2) ap] admitted_def)
qed

lemma chain_inv_AddTx:
  assumes inv: "chain_inv Hash c" and pass: "check tx = (None, tx')"
  shows "chain_inv Hash (snd (AddTx Hash grow zeroTx tx check c))"
proof -
  obtain m' s' where ap: "append_slice grow zeroTx (arrays c) (txs c) tx' = (m', s')"
    by (cases "append_slice grow zeroTx (arrays c) (txs c) tx'")
  let ?c' = "\<lparr>arrays = m', txs = s', byHash = (byHash c)(Hash tx' \<mapsto> (array s', len (txs c)))\<rparr>"
  have c': "snd (AddTx Hash grow zeroTx tx check c) = ?c'"
    by (simp add: AddTx_accepted [where check = check and tx = tx and tx' = tx', OF pass ap])
  from inv have ok: "slice_ok (arrays c) (txs c)" by (simp add: chain_inv_def)
  have log: "admitted ?c' = admitted c @ [tx']"
    using append_slice_log [OF ok ap] by (simp add: admitted_def)
  have ok': "slice_ok m' s'" and a': "array s' < length m'" and l': "len (txs c) < length (m' ! array s')"
    using append_slice_ok [OF ok ap] by simp_all
  have new: "m' ! array s' ! len (txs c) = tx'"
  proof -
    have "take (len s') (m' ! array s') ! len (txs c) = (admitted c @ [tx']) ! len (txs c)"
      using append_slice_log [OF ok ap] by (simp add: admitted_def)
    moreover have "length (admitted c) = len (txs c)"
      using ok l' append_slice_log [OF ok ap] append_slice_len [OF ap]
      by (metis admitted_def length_append_singleton length_take min.absorb2 less_imp_le_nat
          Suc_eq_plus1 Suc_leI nat.inject)
    ultimately show ?thesis
      using append_slice_len [OF ap] by (simp add: nth_append)
  qed
  have "case byHash ?c' h of
          None \<Rightarrow> latest Hash (admitted ?c') h = None
        | Some p \<Rightarrow> ptr_ok (arrays ?c') (txs ?c') p \<and>
            latest Hash (admitted ?c') h = Some (arrays ?c' ! fst p ! snd p)" for h
  proof (cases "h = Hash tx'")
    case True
    have "ptr_ok m' s' (array s', len (txs c))"
      using a' l' append_slice_len [OF ap] by (simp add: ptr_ok_def)
    with True new show ?thesis
      by (simp add: log latest_snoc)
  next
    case False
    show ?thesis
    proof (cases "byHash c h")
      case None
      with inv have "latest Hash (admitted c) h = None"
        by (simp add: chain_inv_None)
      with None False show ?thesis
        by (simp add: log latest_snoc)
    next
      case (Some p)
      with inv have p: "ptr_ok (arrays c) (txs c) p"
        and l: "latest Hash (admitted c) h = Some (arrays c ! fst p ! snd p)"
        by (simp_all add: chain_inv_Some)
      from append_slice_frame [OF ok ap p] l Some False show ?thesis
        by (simp add: log latest_snoc)
    qed
  qed
  with ok' show ?thesis
    unfolding c' chain_inv_def by simp
qed

lemma reachable_inv: "reachable Hash grow zeroTx c \<Longrightarrow> chain_inv Hash c"
proof (induction rule: reachable.induct)
  case reachable_New
  show ?case by (rule chain_inv_New)
next
  case (reachable_AddTx c tx)
  show ?case
    by (rule chain_inv_AddTx [where tx' = tx, OF reachable_AddTx.IH]) simp
qed

lemma reachable_step:
  assumes "reachable Hash grow zeroTx c"
  shows "reachable Hash grow zeroTx (snd (AddTx Hash grow zeroTx tx check c))"
proof (cases "check tx")
  case (Pair r tx')
  show ?thesis
  proof (cases r)
    case None
    with Pair have pass: "check tx = (None, tx')" by simp
    show ?thesis
      using reachable_AddTx [OF assms, of tx']
      by (simp only: AddTx_state_check [where check = check and tx = tx and tx' = tx', OF pass])
  next
    case (Some e)
    with Pair have "fst (check tx) = Some e" by simp
    with assms show ?thesis
      by (simp add: AddTx_rejected [where check = check and tx = tx])
  qed
qed

subsection \<open>Lengths and sequence numbers\<close>


lemma unat_of_nat_len: "n < 2 ^ 64 \<Longrightarrow> unat (of_nat n :: 64 word) = n"
  by (simp add: unat_of_nat)

lemma len_AddTx:
  "check tx = (None, tx') \<Longrightarrow>
   len (txs (snd (AddTx Hash grow zeroTx tx check c))) = len (txs c) + 1"
  by (auto simp: AddTx_def append_slice_def Let_def split: prod.splits if_splits)

lemma length_admitted: "slice_ok (arrays c) (txs c) \<Longrightarrow> length (admitted c) = len (txs c)"
  by (auto simp: slice_ok_def admitted_def)

lemma nth_admitted: "i < len (txs c) \<Longrightarrow> admitted c ! i = arrays c ! array (txs c) ! i"
  by (simp add: admitted_def)

lemma GetTxOfSeq_admitted:
  "GetTxOfSeq c seq =
     (if Len c \<le> seq then Inl (BlockOfSeqNotExist seq) else Inr (admitted c ! unat seq))"
proof (cases "Len c \<le> seq")
  case True
  then show ?thesis by (simp add: GetTxOfSeq_eq)
next
  case False
  then have "seq < of_nat (len (txs c))" by (simp add: Len_def)
  then have "unat seq < len (txs c)" by (rule unat_less_of_nat)
  with False show ?thesis by (simp add: GetTxOfSeq_eq nth_admitted)
qed

subsection \<open>The hash index returns the last transaction with the hash\<close>

lemma find_SomeD: "find P xs = Some x \<Longrightarrow> P x \<and> x \<in> set xs"
  by (induction xs) (auto split: if_splits)

lemma latest_Some: "latest Hash log h = Some t \<Longrightarrow> Hash t = h \<and> t \<in> set log"
  by (auto simp: latest_def dest: find_SomeD)

lemma latest_mem: "t \<in> set log \<Longrightarrow> \<exists>t'. latest Hash log (Hash t) = Some t'"
  by (cases "latest Hash log (Hash t)") (auto simp: latest_def find_None_iff)

lemma latest_inj:
  assumes "inj_on Hash (set log)" and "t \<in> set log"
  shows "latest Hash log (Hash t) = Some t"
proof -
  from latest_mem [OF assms(2)] obtain t' where t': "latest Hash log (Hash t) = Some t'" ..
  from latest_Some [OF t'] assms have "t' = t" by (auto dest: inj_onD)
  with t' show ?thesis by simp
qed

lemma GetTxOfHash_latest:
  assumes "chain_inv Hash c"
  shows "GetTxOfHash c h =
     (case latest Hash (admitted c) h of None \<Rightarrow> Inl (TxOfHashNotExist h) | Some t \<Rightarrow> Inr t)"
proof (cases "byHash c h")
  case None
  with chain_inv_None [OF assms None] show ?thesis by (simp add: GetTxOfHash_def)
next
  case (Some p)
  from chain_inv_Some [OF assms Some] show ?thesis
    by (cases p) (simp add: GetTxOfHash_def Some deref_def ptr_ok_def)
qed

subsection \<open>An accepted \<^verbatim>\<open>AddTx\<close>\<close>

lemma AddTx_fst:
  "check tx = (None, tx') \<Longrightarrow> fst (AddTx Hash grow zeroTx tx check c) = None"
  by (simp add: AddTx_def split: prod.splits)

lemma Len_AddTx:
  "check tx = (None, tx') \<Longrightarrow> Len (snd (AddTx Hash grow zeroTx tx check c)) = Len c + 1"
  by (simp add: Len_def len_AddTx [where check = check and tx = tx and tx' = tx'])

lemma Len_no_wrap:
  assumes "len (txs c) + 1 < 2 ^ 64"
  shows "unat (Len c) = len (txs c)" and "Len c < Len c + 1"
proof -
  from assms show u: "unat (Len c) = len (txs c)"
    by (simp add: Len_def unat_of_nat_len)
  have "Len c + 1 = of_nat (len (txs c) + 1)"
    by (simp add: Len_def)
  then have "unat (Len c + 1) = len (txs c) + 1"
    by (simp only: unat_of_nat_len [OF assms])
  with u show "Len c < Len c + 1" by (simp add: word_less_nat_alt)
qed

lemma Head_last:
  "slice_ok (arrays c) (txs c) \<Longrightarrow> admitted c = log @ [tx] \<Longrightarrow> Head c = Inr tx"
proof -
  assume ok: "slice_ok (arrays c) (txs c)" and log: "admitted c = log @ [tx]"
  from length_admitted [OF ok] log have l: "len (txs c) = Suc (length log)" by simp
  then have "admitted c ! (len (txs c) - 1) = arrays c ! array (txs c) ! (len (txs c) - 1)"
    by (simp add: nth_admitted)
  with l log show ?thesis by (simp add: Head_def index_def)
qed

lemma hash_roundtrip_inj_on:
  assumes "reachable Hash grow zeroTx c" and "inj_on Hash (set (admitted c))" and "i < Len c"
  shows "\<exists>t. GetTxOfSeq c i = Inr t \<and> GetTxOfHash c (Hash t) = Inr t"
proof -
  from assms(1) have inv: "chain_inv Hash c" by (rule reachable_inv)
  then have ok: "slice_ok (arrays c) (txs c)" by (simp add: chain_inv_def)
  from assms(3) have "unat i < len (txs c)" by (simp add: Len_def unat_less_of_nat)
  with length_admitted [OF ok] have mem: "admitted c ! unat i \<in> set (admitted c)" by simp
  from assms(3) have seq: "GetTxOfSeq c i = Inr (admitted c ! unat i)"
    by (simp add: GetTxOfSeq_admitted)
  from latest_inj [OF assms(2) mem]
  have "GetTxOfHash c (Hash (admitted c ! unat i)) = Inr (admitted c ! unat i)"
    by (simp add: GetTxOfHash_latest [OF inv])
  with seq show ?thesis by simp
qed

lemma inj_demo_hash: "content_hash demo_hash"
  by (simp add: content_hash_def inj_on_def demo_hash_def)

subsection \<open>The example chains\<close>

lemma chain1_eq:
  "chain1 = \<lparr>arrays = [[3]], txs = \<lparr>array = 0, len = 1, cap = 1\<rparr>,
     byHash = [7 \<mapsto> (0, 0)]\<rparr>"
  by (simp add: chain1_def AddTx_def append_slice_def NewMemoryChain_def nil_slice_def
      accept_def demo_hash_def double_cap_def Let_def)

lemma chain2_eq:
  "chain2 = \<lparr>arrays = [[3], [3, 4]], txs = \<lparr>array = 1, len = 2, cap = 2\<rparr>,
     byHash = [7 \<mapsto> (0, 0), 9 \<mapsto> (1, 1)]\<rparr>"
  by (simp add: chain2_def chain1_eq AddTx_def append_slice_def
      accept_def demo_hash_def double_cap_def Let_def)

lemma chain3_eq:
  "chain3 = \<lparr>arrays = [[3], [3, 4], [3, 4, 5, 0]], txs = \<lparr>array = 2, len = 3, cap = 4\<rparr>,
     byHash = [7 \<mapsto> (0, 0), 9 \<mapsto> (1, 1), 11 \<mapsto> (2, 2)]\<rparr>"
  by (simp add: chain3_def chain2_eq AddTx_def append_slice_def
      accept_def demo_hash_def double_cap_def Let_def) (simp only: numeral_2_eq_2)

lemma chain3_overwritten_eq:
  "chain3_overwritten =
     \<lparr>arrays = [[3], [3, 4], [3, 4, 5, 99]], txs = \<lparr>array = 2, len = 4, cap = 4\<rparr>,
      byHash = [7 \<mapsto> (0, 0), 9 \<mapsto> (1, 1), 11 \<mapsto> (2, 2), 199 \<mapsto> (2, 3)]\<rparr>"
  by (simp add: chain3_overwritten_def chain3_eq AddTx_def append_slice_def
      overwrite_def demo_hash_def double_cap_def Let_def)

lemma reachable_chain3: "reachable demo_hash double_cap 0 chain3"
  unfolding chain3_def chain2_def chain1_def
  by (intro reachable_step reachable_New)

lemma Len_chain3: "Len chain3 = 3"
  by (simp add: Len_def chain3_eq)

lemma seq_chain3:
  "GetTxOfSeq chain3 0 = Inr 3" "GetTxOfSeq chain3 1 = Inr 4" "GetTxOfSeq chain3 2 = Inr 5"
  by (simp_all add: GetTxOfSeq_def index_def chain3_eq word_le_nat_alt)

lemma upt_1_3:
  "[unat (1 :: 64 word) ..< min (unat (3 :: 64 word)) (unat (1 :: 64 word) + unat (7 :: 64 word))] = [1, 2]"
  by (simp add: upt_rec)

lemma range_chain3: "GetTxsOfSeqRange chain3 1 7 = Inr [4, 5]"
proof -
  have "\<not> (3 :: 64 word) \<le> 1" by (simp add: word_le_nat_alt)
  then have "GetTxsOfSeqRange chain3 1 7 =
      Inr (map (\<lambda>k. arrays chain3 ! array (txs chain3) ! k)
        [unat (1 :: 64 word) ..< min (unat (3 :: 64 word)) (unat (1 :: 64 word) + unat (7 :: 64 word))])"
    by (simp only: GetTxsOfSeqRange_eq Len_chain3 if_False) simp
  also have "\<dots> = Inr [4, 5]"
    by (simp only: upt_1_3) (simp add: chain3_eq)
  finally show ?thesis .
qed

lemma len_chain3: "len (txs chain3) + 1 < 2 ^ 64"
  by (simp add: chain3_eq)

section \<open>The claims\<close>

text \<open>
  Claim C1. When \<open>check\<close> returns an error for \<open>tx\<close>, \<^verbatim>\<open>AddTx\<close> returns that error and
  leaves the chain as it was, whatever the check wrote to its copy of \<open>tx\<close>: the state
  is the same, hence \<^verbatim>\<open>Len\<close>, \<^verbatim>\<open>HeadSeq\<close>, the hash index and \<^verbatim>\<open>GetTxOfHash\<close>,
  \<^verbatim>\<open>GetTxOfSeq\<close> and \<^verbatim>\<open>GetTxsOfSeqRange\<close> at every argument answer as before. This holds
  for every chain state.
\<close>

theorem AddTx_rejected_unchanged:
  assumes "fst (check tx) = Some e"
  shows "AddTx Hash grow zeroTx tx check c = (Some e, c) \<and>
    (let c' = snd (AddTx Hash grow zeroTx tx check c) in
       Len c' = Len c \<and> HeadSeq c' = HeadSeq c \<and> byHash c' = byHash c \<and>
       (\<forall>h. GetTxOfHash c' h = GetTxOfHash c h) \<and>
       (\<forall>s. GetTxOfSeq c' s = GetTxOfSeq c s) \<and>
       (\<forall>s p. GetTxsOfSeqRange c' s p = GetTxsOfSeqRange c s p))"
  using assms by (simp add: AddTx_rejected [where check = check and tx = tx])

theorem AddTx_rejected_unchanged_witness:
  "fst (nonzero 0) = Some ''zero'' \<and>
   AddTx demo_hash double_cap 0 0 nonzero chain3 = (Some ''zero'', chain3)"
  using AddTx_rejected_unchanged [of nonzero 0 "''zero''" demo_hash double_cap 0 chain3]
  by (simp add: nonzero_def)

text \<open>
  Claim C2. The claim is that \<^verbatim>\<open>HeadSeq\<close> does not underflow on the empty chain. The
  method computes \<^verbatim>\<open>uint64(len(c.txs)) - 1\<close> without looking at the length, unlike
  \<^verbatim>\<open>Head\<close>, which tests \<^verbatim>\<open>len(c.txs) == 0\<close> first: on the new, empty chain \<^verbatim>\<open>Len\<close> is
  \<open>0\<close>, \<^verbatim>\<open>Head\<close> reports that there are no transactions, and \<^verbatim>\<open>HeadSeq\<close> returns the
  wrapped value \<open>2\<^sup>6\<^sup>4 - 1\<close>.
\<close>

theorem HeadSeq_empty_underflows:
  "Len (NewMemoryChain :: (nat, nat) MemoryChain) = 0 \<and>
   Head (NewMemoryChain :: (nat, nat) MemoryChain) = Inl NoTransactions \<and>
   HeadSeq (NewMemoryChain :: (nat, nat) MemoryChain) = 18446744073709551615 \<and>
   uint (HeadSeq (NewMemoryChain :: (nat, nat) MemoryChain)) = 2 ^ 64 - 1"
  by (simp add: HeadSeq_def Len_def Head_def NewMemoryChain_def nil_slice_def
      unsigned_minus_1_eq_mask mask_eq_exp_minus_1)



text \<open>
  Claim C4. In every reachable chain state and for every sequence \<open>i < Len()\<close>,
  \<^verbatim>\<open>GetTxOfSeq(i)\<close> returns a transaction \<open>t\<close> and \<^verbatim>\<open>GetTxOfHash\<close> of the hash of \<open>t\<close>
  returns \<open>t\<close> again, for a content hash as the specification describes it
  (\<open>content_hash\<close>). The hash index holds pointers into backing arrays that \<^verbatim>\<open>append\<close>
  may have left behind; their targets still hold the admitted transactions. The same
  transaction admitted twice is covered.
\<close>

theorem hash_roundtrip:
  assumes "content_hash Hash" and "reachable Hash grow zeroTx c" and "i < Len c"
  shows "\<exists>t. GetTxOfSeq c i = Inr t \<and> GetTxOfHash c (Hash t) = Inr t"
proof -
  from assms(1) have "inj Hash" by (simp add: content_hash_def)
  then have "inj_on Hash (set (admitted c))" by (rule inj_on_subset) simp
  with assms(2) show ?thesis using assms(3) by (rule hash_roundtrip_inj_on)
qed

theorem hash_roundtrip_witness:
  "content_hash demo_hash \<and> reachable demo_hash double_cap 0 chain3 \<and>
   (1 :: 64 word) < Len chain3 \<and>
   (\<exists>t. GetTxOfSeq chain3 1 = Inr t \<and> GetTxOfHash chain3 (demo_hash t) = Inr t)"
proof -
  have b: "(1 :: 64 word) < Len chain3" by (simp add: Len_chain3 word_less_nat_alt)
  from hash_roundtrip [OF inj_demo_hash reachable_chain3 b] inj_demo_hash reachable_chain3 b
  show ?thesis by blast
qed

text \<open>
  Claim C5. In every chain state reachable from the empty chain by calls of \<^verbatim>\<open>AddTx\<close>,
  \<open>HeadSeq() = Len() - 1\<close> whenever \<open>Len() > 0\<close>. The read operations do not change the
  state, and after any further call of \<^verbatim>\<open>AddTx\<close>, accepted or rejected, the state is
  reachable again and the equation holds there too.
\<close>

theorem HeadSeq_invariant:
  assumes "reachable Hash grow zeroTx c"
  shows "(0 < Len c \<longrightarrow> HeadSeq c = Len c - 1) \<and>
    (\<forall>tx (check :: 'tx \<Rightarrow> 'e option \<times> 'tx).
       let c' = snd (AddTx Hash grow zeroTx tx check c) in
         reachable Hash grow zeroTx c' \<and> (0 < Len c' \<longrightarrow> HeadSeq c' = Len c' - 1))"
  using assms by (simp add: HeadSeq_def Len_def Let_def reachable_step)

theorem HeadSeq_invariant_witness:
  "reachable demo_hash double_cap 0 chain3 \<and> 0 < Len chain3 \<and> HeadSeq chain3 = Len chain3 - 1"
proof -
  have "0 < Len chain3" by (simp add: Len_chain3)
  with HeadSeq_invariant [OF reachable_chain3, where ?'e = string] reachable_chain3
  show ?thesis by blast
qed

text \<open>
  Claim C6. On the new, empty chain \<^verbatim>\<open>Head\<close> fails with the error "no transactions". The
  claim goes on: after a successful \<^verbatim>\<open>AddTx\<close> of \<open>tx1\<close> into the empty chain, \<^verbatim>\<open>Head\<close>
  returns \<open>tx1\<close>. \<^verbatim>\<open>AddTx\<close> hands the check the address of its copy of \<open>tx1\<close> and
  stores that copy afterwards, so this fails for a check that writes to it. As amended:
  after a successful \<^verbatim>\<open>AddTx\<close> of \<open>tx1\<close> into the empty chain, \<^verbatim>\<open>Head\<close> returns the copy of
  \<open>tx1\<close> as the check left it (\<open>tx1'\<close>; it is \<open>tx1\<close> itself when the check only reads),
  \<^verbatim>\<open>HeadSeq\<close> returns \<open>0\<close> and \<^verbatim>\<open>Len\<close> returns \<open>1\<close>, whatever the hash function and the
  growth of the slice.
\<close>

theorem Head_empty_then_first:
  "Head (NewMemoryChain :: ('tx, 'h) MemoryChain) = Inl NoTransactions \<and>
   (check tx1 = (None, tx1') \<longrightarrow>
      (case AddTx Hash grow zeroTx tx1 check (NewMemoryChain :: ('tx, 'h) MemoryChain) of
         (r, c') \<Rightarrow> r = None \<and> Head c' = Inr tx1' \<and> HeadSeq c' = 0 \<and> Len c' = 1))"
  by (simp add: Head_def HeadSeq_def Len_def AddTx_def append_slice_def NewMemoryChain_def
      nil_slice_def index_def Let_def)

theorem Head_empty_then_first_witness:
  "accept 7 = (None, 7) \<and>
   (case AddTx demo_hash double_cap 0 7 accept NewMemoryChain of
      (r, c') \<Rightarrow> r = None \<and> Head c' = Inr 7 \<and> HeadSeq c' = 0 \<and> Len c' = 1)"
proof -
  have a: "accept 7 = (None, 7)" by (simp add: accept_def)
  with Head_empty_then_first [of accept 7 7 demo_hash double_cap 0] show ?thesis by simp
qed

text \<open>
  The claim as stated fails for the check \<open>overwrite\<close>: it accepts \<open>3\<close>, and the head of
  the chain is \<open>99\<close> afterwards.
\<close>

theorem Head_empty_then_first_counterexample:
  "overwrite 3 = (None, 99) \<and>
   fst (AddTx demo_hash double_cap 0 3 overwrite (NewMemoryChain :: (nat, nat) MemoryChain)) = None \<and>
   Head (snd (AddTx demo_hash double_cap 0 3 overwrite (NewMemoryChain :: (nat, nat) MemoryChain)))
     = Inr 99 \<and>
   Head (snd (AddTx demo_hash double_cap 0 3 overwrite (NewMemoryChain :: (nat, nat) MemoryChain)))
     \<noteq> Inr 3"
  by (simp add: overwrite_def AddTx_def append_slice_def NewMemoryChain_def nil_slice_def
      Head_def index_def Let_def)



text \<open>
  Claim C8. After a successful \<^verbatim>\<open>AddTx(tx, check)\<close> on a reachable chain, \<^verbatim>\<open>Len\<close> has
  grown by exactly one, the new transaction (the copy of \<open>tx\<close> as the check left it,
  \<open>tx'\<close>) is at the last sequence (the old \<^verbatim>\<open>Len\<close>, the new \<^verbatim>\<open>HeadSeq\<close>) and is the head,
  and every sequence below the old \<^verbatim>\<open>Len\<close> still holds the transaction it held before.
  The length of a Go slice is an \<^verbatim>\<open>int\<close>, below \<open>2\<^sup>6\<^sup>3\<close>; the statement asks for no
  more than that the new length fits a \<^verbatim>\<open>uint64\<close>.
\<close>

theorem AddTx_appends:
  assumes "reachable Hash grow zeroTx c" and "len (txs c) + 1 < 2 ^ 64" and "check tx = (None, tx')"
  shows "case AddTx Hash grow zeroTx tx check c of
     (r, c') \<Rightarrow> r = None \<and> Len c' = Len c + 1 \<and> Len c < Len c' \<and> HeadSeq c' = Len c \<and>
       GetTxOfSeq c' (Len c) = Inr tx' \<and> Head c' = Inr tx' \<and>
       (\<forall>i. i < Len c \<longrightarrow> (\<exists>t. GetTxOfSeq c i = Inr t \<and> GetTxOfSeq c' i = Inr t))"
proof -
  let ?c' = "snd (AddTx Hash grow zeroTx tx check c)"
  from assms(1) have inv: "chain_inv Hash c" by (rule reachable_inv)
  then have ok: "slice_ok (arrays c) (txs c)" by (simp add: chain_inv_def)
  from chain_inv_AddTx [where check = check and tx = tx and tx' = tx', OF inv assms(3)]
  have ok': "slice_ok (arrays ?c') (txs ?c')" by (simp add: chain_inv_def)
  have log: "admitted ?c' = admitted c @ [tx']"
    using ok assms(3) by (rule admitted_AddTx [where check = check and tx = tx and tx' = tx'])
  have L: "Len ?c' = Len c + 1" using assms(3) by (rule Len_AddTx [where check = check and tx = tx and tx' = tx'])
  note nw = Len_no_wrap [OF assms(2)]
  have n: "length (admitted c) = unat (Len c)"
    using length_admitted [OF ok] nw(1) by simp
  have new: "GetTxOfSeq ?c' (Len c) = Inr tx'"
    using nw(2) by (simp add: GetTxOfSeq_admitted L log n [symmetric])
  have old: "\<exists>t. GetTxOfSeq c i = Inr t \<and> GetTxOfSeq ?c' i = Inr t" if "i < Len c" for i
  proof -
    from that have "unat i < length (admitted c)" by (simp add: n word_less_nat_alt)
    moreover from that nw(2) have "i < Len c + 1" by (rule less_trans)
    then have "\<not> Len c + 1 \<le> i" by (simp only: not_le)
    moreover from that have "\<not> Len c \<le> i" by (simp only: not_le)
    ultimately show ?thesis
      by (simp add: GetTxOfSeq_admitted L log nth_append)
  qed
  have "Head ?c' = Inr tx'" using ok' log by (rule Head_last)
  moreover have "HeadSeq ?c' = Len c"
    using L by (simp add: HeadSeq_def Len_def)
  ultimately show ?thesis
    using AddTx_fst [where check = check and tx = tx and tx' = tx', OF assms(3), of Hash grow zeroTx c]
      L nw(2) new old by (simp add: case_prod_beta)
qed

theorem AddTx_appends_witness:
  "reachable demo_hash double_cap 0 chain3 \<and> len (txs chain3) + 1 < 2 ^ 64 \<and>
   accept 6 = (None, 6) \<and>
   (case AddTx demo_hash double_cap 0 6 accept chain3 of
      (r, c') \<Rightarrow> r = None \<and> Len c' = Len chain3 + 1 \<and> Len chain3 < Len c' \<and>
        HeadSeq c' = Len chain3 \<and> GetTxOfSeq c' (Len chain3) = Inr 6 \<and> Head c' = Inr 6 \<and>
        (\<forall>i. i < Len chain3 \<longrightarrow> (\<exists>t. GetTxOfSeq chain3 i = Inr t \<and> GetTxOfSeq c' i = Inr t)))"
proof -
  have a: "accept 6 = (None, 6)" by (simp add: accept_def)
  from AddTx_appends [where check = accept and tx = 6 and tx' = 6,
      OF reachable_chain3 len_chain3 a]
    reachable_chain3 len_chain3 a
  show ?thesis by blast
qed

text \<open>
  Claim C9. A successful \<^verbatim>\<open>GetTxsOfSeqRange(s, p)\<close> returns a non-empty list: then
  \<open>p \<ge> 1\<close> and \<open>s < Len()\<close>, and the first element is the transaction at sequence \<open>s\<close>.
\<close>

theorem GetTxsOfSeqRange_nonempty:
  assumes "GetTxsOfSeqRange c s p = Inr xs"
  shows "xs \<noteq> [] \<and> 1 \<le> p \<and> s < Len c \<and> GetTxOfSeq c s = Inr (hd xs)"
proof -
  from assms have p: "p \<noteq> 0" and s: "s < Len c"
    by (auto simp: GetTxsOfSeqRange_eq split: if_splits)
  let ?e = "min (unat (Len c)) (unat s + unat p)"
  from p have "0 < unat p" by (simp add: unat_gt_0)
  moreover from s have "unat s < unat (Len c)" by (simp add: word_less_nat_alt)
  ultimately have e: "unat s < ?e" by simp
  from s have "\<not> Len c \<le> s" by simp
  with assms p have xs: "xs = map (\<lambda>k. arrays c ! array (txs c) ! k) [unat s ..< ?e]"
    by (simp add: GetTxsOfSeqRange_eq)
  from e have "[unat s ..< ?e] = unat s # [Suc (unat s) ..< ?e]"
    by (rule upt_conv_Cons)
  with xs have "xs \<noteq> []" and "hd xs = arrays c ! array (txs c) ! unat s"
    by simp_all
  moreover from p have "1 \<le> p" by (simp add: word_le_nat_alt unat_gt_0 Suc_leI)
  ultimately show ?thesis
    using s by (simp add: GetTxOfSeq_eq)
qed

theorem GetTxsOfSeqRange_nonempty_witness:
  "GetTxsOfSeqRange chain3 1 7 = Inr [4, 5] \<and> [4, 5 :: nat] \<noteq> [] \<and> (1 :: 64 word) < Len chain3 \<and>
   GetTxOfSeq chain3 1 = Inr (hd [4, 5])"
  using GetTxsOfSeqRange_nonempty [OF range_chain3] range_chain3 by blast

text \<open>
  Claim C10. \<^verbatim>\<open>AddTx\<close> has no uniqueness check of its own. The claim is about a
  transaction \<open>tx\<close> that has the hash of an admitted one and passes the check; what
  \<^verbatim>\<open>AddTx\<close> appends and hashes is its copy of \<open>tx\<close> as the check left it, so the claim
  fails for a check that writes to it. As amended: if \<open>tx\<close> passes the check and its
  copy as the check left it (\<open>tx'\<close>; it is \<open>tx\<close> itself when the check only reads) has
  the hash of a transaction \<open>old\<close> already admitted at sequence \<open>i\<close>, then \<open>tx'\<close> is
  appended as a new entry: \<^verbatim>\<open>Len\<close> grows by one, \<open>old\<close> stays at sequence \<open>i\<close> and \<open>tx'\<close>
  is at the last sequence. The hash index now points at the new entry (the element at
  the old length, not the one at \<open>i\<close>), \<^verbatim>\<open>GetTxOfHash\<close> of the common hash returns
  \<open>tx'\<close>, and, when \<open>old\<close> differs from \<open>tx'\<close>, no hash lookup returns \<open>old\<close> any more.
\<close>

theorem AddTx_same_hash:
  assumes "reachable Hash grow zeroTx c" and "len (txs c) + 1 < 2 ^ 64"
    and "GetTxOfSeq c i = Inr old" and "check tx = (None, tx')" and "Hash tx' = Hash old"
  shows "case AddTx Hash grow zeroTx tx check c of
     (r, c') \<Rightarrow> r = None \<and> Len c' = Len c + 1 \<and> Len c < Len c' \<and>
       GetTxOfSeq c' i = Inr old \<and> GetTxOfSeq c' (Len c) = Inr tx' \<and>
       GetTxOfHash c' (Hash old) = Inr tx' \<and>
       byHash c' (Hash old) = Some (array (txs c'), len (txs c)) \<and> unat i < len (txs c) \<and>
       (old \<noteq> tx' \<longrightarrow> (\<forall>h. GetTxOfHash c' h \<noteq> Inr old))"
proof -
  let ?c' = "snd (AddTx Hash grow zeroTx tx check c)"
  from assms(1) have inv: "chain_inv Hash c" by (rule reachable_inv)
  then have ok: "slice_ok (arrays c) (txs c)" by (simp add: chain_inv_def)
  have inv': "chain_inv Hash ?c'"
    using inv assms(4) by (rule chain_inv_AddTx [where check = check and tx = tx and tx' = tx'])
  have log: "admitted ?c' = admitted c @ [tx']"
    using ok assms(4) by (rule admitted_AddTx [where check = check and tx = tx and tx' = tx'])
  have L: "Len ?c' = Len c + 1" using assms(4) by (rule Len_AddTx [where check = check and tx = tx and tx' = tx'])
  note nw = Len_no_wrap [OF assms(2)]
  have n: "length (admitted c) = unat (Len c)"
    using length_admitted [OF ok] nw(1) by simp
  from assms(3) have i: "i < Len c"
    by (simp add: GetTxOfSeq_admitted split: if_splits)
  then have ui: "unat i < len (txs c)" by (simp add: Len_def unat_less_of_nat)
  from i nw(2) have i': "i < Len c + 1" by (rule less_trans)
  from i have ni: "\<not> Len c \<le> i" by (simp only: not_le)
  from i' have ni': "\<not> Len c + 1 \<le> i" by (simp only: not_le)
  from assms(3) ni have "admitted c ! unat i = old" by (simp add: GetTxOfSeq_admitted)
  moreover from ui length_admitted [OF ok] have "unat i < length (admitted c)" by simp
  ultimately have old: "GetTxOfSeq ?c' i = Inr old"
    using ni' by (simp add: GetTxOfSeq_admitted L log nth_append)
  have new: "GetTxOfSeq ?c' (Len c) = Inr tx'"
    using nw(2) by (simp add: GetTxOfSeq_admitted L log n [symmetric])
  have hash: "GetTxOfHash ?c' (Hash old) = Inr tx'"
    using assms(5) by (simp add: GetTxOfHash_latest [OF inv'] log latest_snoc)
  have ptr: "byHash ?c' (Hash old) = Some (array (txs ?c'), len (txs c))"
    using assms(4,5) by (auto simp: AddTx_def append_slice_def Let_def split: prod.splits if_splits)
  have gone: "GetTxOfHash ?c' h \<noteq> Inr old" if "old \<noteq> tx'" for h
  proof
    assume "GetTxOfHash ?c' h = Inr old"
    then have l: "latest Hash (admitted c @ [tx']) h = Some old"
      by (simp add: GetTxOfHash_latest [OF inv'] log split: option.splits)
    from latest_Some [OF l] have "h = Hash tx'" using assms(5) by simp
    with l that show False by (simp add: latest_snoc)
  qed
  show ?thesis
    using AddTx_fst [where check = check and tx = tx and tx' = tx', OF assms(4), of Hash grow zeroTx c]
      L nw(2) old new hash ptr ui gone by (simp add: case_prod_beta)
qed

theorem AddTx_same_hash_witness:
  "reachable demo_hash double_cap 0 chain3 \<and> len (txs chain3) + 1 < 2 ^ 64 \<and>
   GetTxOfSeq chain3 0 = Inr 3 \<and> accept 3 = (None, 3) \<and> demo_hash 3 = demo_hash 3 \<and>
   (case AddTx demo_hash double_cap 0 3 accept chain3 of
      (r, c') \<Rightarrow> r = None \<and> Len c' = Len chain3 + 1 \<and> GetTxOfSeq c' 0 = Inr 3 \<and>
        GetTxOfSeq c' (Len chain3) = Inr 3 \<and> GetTxOfHash c' (demo_hash 3) = Inr 3 \<and>
        byHash c' (demo_hash 3) = Some (array (txs c'), len (txs chain3)) \<and>
        unat (0 :: 64 word) < len (txs chain3))"
proof -
  have a: "accept 3 = (None, 3)" by (simp add: accept_def)
  from AddTx_same_hash [where check = accept and tx = 3 and tx' = 3 and old = 3 and i = 0,
      OF reachable_chain3 len_chain3 seq_chain3(1) a refl]
    reachable_chain3 len_chain3 seq_chain3(1) a
  show ?thesis by (auto simp: case_prod_beta)
qed

text \<open>
  The claim as stated fails on \<open>chain3\<close> for the transaction \<open>3\<close>, which is admitted at
  sequence \<open>0\<close>, and the check \<open>overwrite\<close>: the check accepts it, the new entry is
  \<open>99\<close>, and the index entry of the hash of \<open>3\<close> is the pointer it was before, to the
  earlier entry, which the lookup still returns.
\<close>

theorem AddTx_same_hash_counterexample:
  "reachable demo_hash double_cap 0 chain3 \<and> GetTxOfSeq chain3 0 = Inr 3 \<and>
   overwrite 3 = (None, 99) \<and>
   fst (AddTx demo_hash double_cap 0 3 overwrite chain3) = None \<and>
   Len (snd (AddTx demo_hash double_cap 0 3 overwrite chain3)) = 4 \<and>
   GetTxOfSeq (snd (AddTx demo_hash double_cap 0 3 overwrite chain3)) 3 = Inr 99 \<and>
   byHash (snd (AddTx demo_hash double_cap 0 3 overwrite chain3)) (demo_hash 3) = Some (0, 0) \<and>
   byHash chain3 (demo_hash 3) = Some (0, 0) \<and>
   GetTxOfHash (snd (AddTx demo_hash double_cap 0 3 overwrite chain3)) (demo_hash 3) = Inr 3"
proof -
  have "fst (AddTx demo_hash double_cap 0 3 overwrite chain3) = None"
    by (simp add: AddTx_fst [where check = overwrite and tx = 3 and tx' = 99] overwrite_def)
  then show ?thesis
    unfolding chain3_overwritten_def [symmetric]
    using reachable_chain3 seq_chain3(1)
    by (simp add: overwrite_def chain3_overwritten_eq chain3_eq Len_def GetTxOfSeq_def
        GetTxOfHash_def index_def deref_def demo_hash_def word_le_nat_alt)
qed

end
